theory Spec2Isabelle
  imports Main
begin

section \<open>Python values\<close>

text \<open>
  A Python \<open>str\<close> is a sequence of Unicode code points; a code point is a natural
  number. \<open>lit\<close> embeds the ASCII literals of the source.
\<close>

type_synonym str = "nat list"

type_synonym bytes = "nat list"

definition lit :: "string \<Rightarrow> str" where
  "lit s = map of_char s"

text \<open>\<open>text[i:j]\<close> and \<open>text[i:]\<close> for indices that are not negative.\<close>

definition slice :: "str \<Rightarrow> nat \<Rightarrow> nat \<Rightarrow> str" where
  "slice s i j = take (j - i) (drop i s)"

definition slice_from :: "str \<Rightarrow> nat \<Rightarrow> str" where
  "slice_from s i = drop i s"

text \<open>\<open>str(n)\<close> for an integer that is not negative, as an f-string prints it.\<close>

fun str_of_nat :: "nat \<Rightarrow> str" where
  "str_of_nat n = (if n < 10 then [48 + n] else str_of_nat (n div 10) @ [48 + n mod 10])"

declare str_of_nat.simps [simp del]

section \<open>The libraries the program calls\<close>

text \<open>
  The tagger's tokens: \<open>token.text\<close>, \<open>token.pos_\<close> and \<open>token.like_num\<close>.
\<close>

record token =
  token_text :: str
  token_pos :: str
  like_num :: bool

text \<open>
  The source calls the spaCy pipeline, \<open>str.lower\<close>, \<open>str.strip\<close>, the class \<open>\w\<close> of
  \<open>re\<close> and \<open>bytes.decode\<close>. None of them is code of the repository, and all but the
  first read the Unicode tables, so they are parameters of the model:
  \<^item> \<open>nlp\<close>: \<open>self.nlp(text)\<close>, the tagged tokens of a text;
  \<^item> \<open>lower\<close>: \<open>str.lower\<close>;
  \<^item> \<open>word_char\<close>: the code points that \<open>\w\<close> matches;
  \<^item> \<open>space_char\<close>: the code points that \<open>str.strip()\<close> removes;
  \<^item> \<open>decode_utf8\<close>: \<open>bytes.decode('utf-8')\<close>, \<open>None\<close> where it raises.
\<close>

record py =
  nlp :: "str \<Rightarrow> token list"
  lower :: "str \<Rightarrow> str"
  word_char :: "nat \<Rightarrow> bool"
  space_char :: "nat \<Rightarrow> bool"
  decode_utf8 :: "bytes \<Rightarrow> str option"

definition strip :: "py \<Rightarrow> str \<Rightarrow> str" where
  "strip P s = rev (dropWhile (space_char P) (rev (dropWhile (space_char P) s)))"

subsection \<open>The pattern \<open>\b\w+\b\<close>\<close>

text \<open>
  A match object: \<open>match.start()\<close>, \<open>match.end()\<close>, \<open>match.group()\<close>.
\<close>

record match =
  start :: nat
  endpos :: nat
  group :: str

text \<open>
  \<open>re.finditer(r'\b\w+\b', s)\<close> scans from the left. At a word character that follows
  a non-word character (or the start) the leading \<open>\b\<close> holds, \<open>\w+\<close> takes the whole
  run of word characters, and the trailing \<open>\b\<close> holds only at the end of that run, so
  the match is the maximal run; the scan resumes behind it. \<open>pos\<close> is the offset of the
  rest of the text in \<open>s\<close>.
\<close>

function finditer_from :: "(nat \<Rightarrow> bool) \<Rightarrow> nat \<Rightarrow> str \<Rightarrow> match list" where
  "finditer_from w pos [] = []"
| "finditer_from w pos (c # cs) =
     (if w c
      then (let run = takeWhile w (c # cs) in
            \<lparr>start = pos, endpos = pos + length run, group = run\<rparr>
              # finditer_from w (pos + length run) (dropWhile w (c # cs)))
      else finditer_from w (Suc pos) cs)"
  by pat_completeness auto
termination
  by (relation "measure (\<lambda>(w, pos, s). length s)")
     (auto simp: less_Suc_eq_le length_dropWhile_le)

definition finditer :: "py \<Rightarrow> str \<Rightarrow> match list" where
  "finditer P s = finditer_from (word_char P) 0 s"

definition findall :: "py \<Rightarrow> str \<Rightarrow> str list" where
  "findall P s = map group (finditer P s)"

subsection \<open>\<open>collections.Counter\<close>\<close>

text \<open>
  A \<open>Counter\<close> built from a list is a dictionary in insertion order: a key seen again
  has its count raised where it stands, a new key is added at the end.
\<close>

fun counter_incr :: "'k \<Rightarrow> ('k \<times> nat) list \<Rightarrow> ('k \<times> nat) list" where
  "counter_incr k [] = [(k, 1)]"
| "counter_incr k ((k', n) # kvs) =
     (if k' = k then (k', n + 1) # kvs else (k', n) # counter_incr k kvs)"

definition Counter :: "'k list \<Rightarrow> ('k \<times> nat) list" where
  "Counter xs = foldl (\<lambda>d k. counter_incr k d) [] xs"

definition keys :: "('k \<times> nat) list \<Rightarrow> 'k list" where
  "keys d = map fst d"

section \<open>\<open>SpanishValidator.validate_text\<close>\<close>

record validation_result =
  compliant :: bool
  errors :: "(str \<times> nat) list"

definition validate_text :: "py \<Rightarrow> str \<Rightarrow> str set \<Rightarrow> validation_result" where
  "validate_text P text vocabulary =
     (let doc = nlp P text;
          proper_nouns =
            set [lower P (token_text token). token \<leftarrow> doc, token_pos token = lit ''PROPN''];
          numbers = set [lower P (token_text token). token \<leftarrow> doc, like_num token];
          words = findall P (lower P text);
          non_compliant_words =
            [word \<leftarrow> words.
               word \<notin> vocabulary \<and> word \<notin> proper_nouns \<and> word \<notin> numbers];
          error_counts = Counter non_compliant_words
      in \<lparr>compliant = (length non_compliant_words = 0), errors = error_counts\<rparr>)"

text \<open>The local variables of \<open>validate_text\<close>, as functions of its arguments.\<close>

definition proper_nouns :: "py \<Rightarrow> str \<Rightarrow> str set" where
  "proper_nouns P text =
     set [lower P (token_text token). token \<leftarrow> nlp P text, token_pos token = lit ''PROPN'']"

definition numbers :: "py \<Rightarrow> str \<Rightarrow> str set" where
  "numbers P text = set [lower P (token_text token). token \<leftarrow> nlp P text, like_num token]"

definition words :: "py \<Rightarrow> str \<Rightarrow> str list" where
  "words P text = findall P (lower P text)"

definition non_compliant_words :: "py \<Rightarrow> str \<Rightarrow> str set \<Rightarrow> str list" where
  "non_compliant_words P text vocabulary =
     [word \<leftarrow> words P text.
        word \<notin> vocabulary \<and> word \<notin> proper_nouns P text \<and> word \<notin> numbers P text]"

section \<open>\<open>format_text_with_highlights\<close>\<close>

definition span :: "str \<Rightarrow> str" where
  \<open>span word = lit ''<span style="color: red">'' @ word @ lit ''</span>''\<close>

text \<open>One turn of the loop over the matches, on \<open>(formatted_parts, current_pos)\<close>.\<close>

definition highlight_step ::
  "py \<Rightarrow> str \<Rightarrow> str set \<Rightarrow> str list \<times> nat \<Rightarrow> match \<Rightarrow> str list \<times> nat" where
  "highlight_step P text error_words_lower st m =
     (case st of (formatted_parts, current_pos) \<Rightarrow>
        (formatted_parts
           @ [slice text current_pos (start m)]
           @ [if lower P (group m) \<in> error_words_lower then span (group m) else group m],
         endpos m))"

definition highlight_parts :: "py \<Rightarrow> str \<Rightarrow> str set \<Rightarrow> str list" where
  "highlight_parts P text error_words =
     (let error_words_lower = lower P ` error_words
      in case foldl (highlight_step P text error_words_lower) ([], 0) (finditer P text) of
           (formatted_parts, current_pos) \<Rightarrow>
             formatted_parts @ [slice_from text current_pos])"

definition format_text_with_highlights :: "py \<Rightarrow> str \<Rightarrow> str set \<Rightarrow> str" where
  "format_text_with_highlights P text error_words = concat (highlight_parts P text error_words)"

section \<open>\<open>main\<close>\<close>

text \<open>
  What one run of the script shows, in order: the calls of \<open>st.set_page_config\<close>
  (page title, layout), \<open>st.markdown\<close> (body, \<open>unsafe_allow_html\<close>), \<open>st.title\<close>,
  \<open>st.success\<close> and \<open>st.warning\<close>.
\<close>

datatype event =
  Set_page_config str str
| Markdown str bool
| Title str
| Success str
| Warning str

datatype error = UnicodeDecodeError

definition css :: str where
  "css = [10] @ lit ''        <style>''
    @ [10] @ lit ''        .stTextInput > div > div > input {''
    @ [10] @ lit ''            font-size: 16px;''
    @ [10] @ lit ''        }''
    @ [10] @ lit ''        .highlight {''
    @ [10] @ lit ''            background-color: #f0f2f6;''
    @ [10] @ lit ''            padding: 20px;''
    @ [10] @ lit ''            border-radius: 10px;''
    @ [10] @ lit ''        }''
    @ [10] @ lit ''        </style>''
    @ [10] @ lit ''    ''"

text \<open>
  The set comprehension over the uploaded lines. A line that does not decode raises,
  and the exception leaves \<open>main\<close>.
\<close>

definition load_vocabulary :: "py \<Rightarrow> bytes list \<Rightarrow> error + str set" where
  "load_vocabulary P lines =
     (case those (map (decode_utf8 P) lines) of
        None \<Rightarrow> Inl UnicodeDecodeError
      | Some decoded \<Rightarrow>
          Inr (set [lower P (strip P line). line \<leftarrow> decoded, strip P line \<noteq> []]))"

text \<open>
  The body of \<open>if st.button("Validate Text")\<close>: what it shows, and the value of
  \<open>result\<close>, which is \<open>None\<close> on the two branches that never assign it (they do not
  call \<open>validate_text\<close>).
\<close>

definition validate_clicked ::
  "py \<Rightarrow> str set \<Rightarrow> str \<Rightarrow> event list \<times> validation_result option" where
  \<open>validate_clicked P vocabulary text_input =
     (if vocabulary = {} then
        ([Warning (lit ''Please load a vocabulary file first.'')], None)
      else if strip P text_input = [] then
        ([Warning (lit ''Please enter some text to validate.'')], None)
      else
        (let result = validate_text P text_input vocabulary;
             highlighted_text =
               format_text_with_highlights P text_input (set (keys (errors result)))
         in ([Markdown (lit ''### Validation Results'') False]
             @ (if compliant result then
                  [Markdown ([0x2713] @ lit '' <span style="color:green">The text is compliant with the vocabulary list.</span>'') True]
                else
                  [Markdown ([0x2717] @ lit '' <span style="color:red">Non-compliant words found:</span>'') True]
                  @ map (\<lambda>(word, count).
                      if count > 1 then
                        Markdown ([0x2022] @ lit '' '' @ word
                          @ lit '' <span style="color:blue">('' @ str_of_nat count
                          @ lit '' times)</span>'') True
                      else Markdown ([0x2022] @ lit '' '' @ word) False)
                    (errors result))
             @ [Markdown (lit ''### Text with Highlighted Errors'') False,
                Markdown (lit ''<div class="highlight">'' @ highlighted_text @ lit ''</div>'')
                  True],
             Some result)))\<close>

text \<open>
  What the widgets return in one run: \<open>st.file_uploader\<close> (\<open>None\<close>, or the lines of the
  uploaded file as \<open>readlines\<close> gives them), \<open>st.text_area\<close> and \<open>st.button\<close>.
\<close>

record widgets =
  uploaded_file :: "bytes list option"
  text_input :: str
  button :: bool

definition main :: "py \<Rightarrow> widgets \<Rightarrow> error + event list" where
  "main P ui =
     (case (case uploaded_file ui of
              None \<Rightarrow> Inr ({}, [])
            | Some lines \<Rightarrow>
                (case load_vocabulary P lines of
                   Inl e \<Rightarrow> Inl e
                 | Inr vocabulary \<Rightarrow>
                     Inr (vocabulary,
                          [Success (lit ''Vocabulary loaded: '' @ str_of_nat (card vocabulary)
                             @ lit '' words'')]))) of
        Inl e \<Rightarrow> Inl e
      | Inr (vocabulary, loaded) \<Rightarrow>
          Inr ([Set_page_config (lit ''Spanish Text Validator'') (lit ''wide''),
                Markdown css True,
                Title (lit ''Spanish Text Validator'')]
               @ loaded
               @ (if button ui then fst (validate_clicked P vocabulary (text_input ui))
                  else [])))"

section \<open>The specification's vocabulary\<close>

text \<open>
  The text as the specification sees it: an alternation of tokens (maximal runs of
  word characters) and of the text between and around them.
\<close>

datatype segment = Gap str | Tok str

function segments :: "(nat \<Rightarrow> bool) \<Rightarrow> str \<Rightarrow> segment list" where
  "segments w [] = []"
| "segments w (c # cs) =
     (if w c
      then Tok (takeWhile w (c # cs)) # segments w (dropWhile w (c # cs))
      else Gap (takeWhile (\<lambda>x. \<not> w x) (c # cs))
             # segments w (dropWhile (\<lambda>x. \<not> w x) (c # cs)))"
  by pat_completeness auto
termination
  by (relation "measure (\<lambda>(w, s). length s)")
     (auto simp: less_Suc_eq_le length_dropWhile_le)

fun segment_text :: "segment \<Rightarrow> str" where
  "segment_text (Gap s) = s"
| "segment_text (Tok s) = s"

text \<open>
  A token is flagged when it equals a flagged word up to case; a flagged token is
  wrapped in the markup, and everything else is copied.
\<close>

definition flagged :: "py \<Rightarrow> str set \<Rightarrow> str \<Rightarrow> bool" where
  "flagged P F t = (lower P t \<in> lower P ` F)"

fun emit :: "py \<Rightarrow> str set \<Rightarrow> segment \<Rightarrow> str" where
  "emit P F (Gap s) = s"
| "emit P F (Tok t) = (if flagged P F t then span t else t)"

text \<open>The distinct elements of a list, in the order of their first occurrences.\<close>

fun first_seen :: "'a list \<Rightarrow> 'a list" where
  "first_seen [] = []"
| "first_seen (x # xs) = x # first_seen (filter (\<lambda>y. y \<noteq> x) xs)"

text \<open>Every second element of a list, from the second on.\<close>

fun odds :: "'a list \<Rightarrow> 'a list" where
  "odds (x # y # zs) = y # odds zs"
| "odds _ = []"

section \<open>Test instances\<close>

text \<open>
  On ASCII text Python's \<open>str.lower\<close>, \<open>\w\<close>, \<open>str.strip\<close> and UTF-8 decoding are the
  functions below. The tagger of an instance is a stub that returns a given document
  (the tokens spaCy gives for the text of the example).
\<close>

definition ascii_lower :: "str \<Rightarrow> str" where
  "ascii_lower s = map (\<lambda>c. if 65 \<le> c \<and> c \<le> 90 then c + 32 else c) s"

definition ascii_word :: "nat \<Rightarrow> bool" where
  "ascii_word c = ((48 \<le> c \<and> c \<le> 57) \<or> (65 \<le> c \<and> c \<le> 90) \<or> c = 95 \<or> (97 \<le> c \<and> c \<le> 122))"

definition ascii_space :: "nat \<Rightarrow> bool" where
  "ascii_space c = (c = 32 \<or> (9 \<le> c \<and> c \<le> 13) \<or> (28 \<le> c \<and> c \<le> 31))"

definition ascii_decode :: "bytes \<Rightarrow> str option" where
  "ascii_decode bs = (if list_all (\<lambda>b. b < 128) bs then Some bs else None)"

definition ascii_py :: "token list \<Rightarrow> py" where
  "ascii_py doc =
     \<lparr>nlp = (\<lambda>text. doc), lower = ascii_lower, word_char = ascii_word,
      space_char = ascii_space, decode_utf8 = ascii_decode\<rparr>"

definition tagged :: "string \<Rightarrow> string \<Rightarrow> bool \<Rightarrow> token" where
  "tagged text pos num = \<lparr>token_text = lit text, token_pos = lit pos, like_num = num\<rparr>"

text \<open>The tokens of \<open>El gato Fluffy come 3 pescados hoy\<close>.\<close>

definition doc_gato :: "token list" where
  "doc_gato =
     [tagged ''El'' ''DET'' False, tagged ''gato'' ''NOUN'' False,
      tagged ''Fluffy'' ''PROPN'' False, tagged ''come'' ''VERB'' False,
      tagged ''3'' ''NUM'' True, tagged ''pescados'' ''NOUN'' False,
      tagged ''hoy'' ''ADV'' False]"


text \<open>The tokens of \<open>1.5\<close>: the tagger keeps a decimal number in one token.\<close>

definition doc_decimal :: "token list" where
  "doc_decimal = [tagged ''1.5'' ''NUM'' True]"





definition ascii_digit :: "nat \<Rightarrow> bool" where
  "ascii_digit c = (48 \<le> c \<and> c \<le> 57)"

section \<open>The counter\<close>

lemma Counter_snoc: "Counter (xs @ [x]) = counter_incr x (Counter xs)"
  by (simp add: Counter_def)

lemma keys_counter_incr:
  "keys (counter_incr k d) = (if k \<in> set (keys d) then keys d else keys d @ [k])"
  by (induction d) (force simp: keys_def)+

lemma set_counter_incr:
  "distinct (keys d) \<Longrightarrow>
   set (counter_incr k d) =
     (if k \<in> set (keys d)
      then {(k', c'). (k' \<noteq> k \<and> (k', c') \<in> set d) \<or> (k' = k \<and> (\<exists>c. (k, c) \<in> set d \<and> c' = c + 1))}
      else insert (k, 1) (set d))"
proof (induction d)
  case Nil
  then show ?case by (simp add: keys_def)
next
  case (Cons p d)
  obtain k0 n where p: "p = (k0, n)" by (cases p)
  from Cons.prems p have nk: "k0 \<notin> set (keys d)" and dd: "distinct (keys d)"
    by (simp_all add: keys_def)
  from nk have nk': "\<And>c. (k0, c) \<notin> set d"
    by (force simp: keys_def)
  show ?case
  proof (cases "k0 = k")
    case True
    with p nk nk' show ?thesis by (auto simp: keys_def)
  next
    case False
    with p Cons.IH [OF dd] show ?thesis by (auto simp: keys_def)
  qed
qed

lemma first_seen_snoc:
  "first_seen (xs @ [x]) = (if x \<in> set xs then first_seen xs else first_seen xs @ [x])"
  by (induction xs rule: first_seen.induct) auto

lemma set_first_seen: "set (first_seen xs) = set xs"
  by (induction xs rule: first_seen.induct) auto

lemma distinct_first_seen: "distinct (first_seen xs)"
  by (induction xs rule: first_seen.induct) (auto simp: set_first_seen)

lemma keys_Counter: "keys (Counter xs) = first_seen xs"
proof (induction xs rule: rev_induct)
  case Nil
  show ?case by (simp add: Counter_def keys_def)
next
  case (snoc x xs)
  then show ?case
    by (simp add: Counter_snoc keys_counter_incr first_seen_snoc set_first_seen)
qed

lemma Counter_counts: "(k, c) \<in> set (Counter xs) \<Longrightarrow> c = count_list xs k"
proof (induction xs arbitrary: k c rule: rev_induct)
  case Nil
  then show ?case by (simp add: Counter_def)
next
  case (snoc x xs)
  have d: "distinct (keys (Counter xs))"
    by (simp add: keys_Counter distinct_first_seen)
  show ?case
  proof (cases "x \<in> set (keys (Counter xs))")
    case True
    with snoc.prems have
      "(k \<noteq> x \<and> (k, c) \<in> set (Counter xs)) \<or> (k = x \<and> (\<exists>c0. (x, c0) \<in> set (Counter xs) \<and> c = c0 + 1))"
      by (simp add: Counter_snoc set_counter_incr [OF d])
    then show ?thesis using snoc.IH by auto
  next
    case False
    then have nx: "x \<notin> set xs" by (simp add: keys_Counter set_first_seen)
    from False snoc.prems have "(k, c) = (x, 1) \<or> (k, c) \<in> set (Counter xs)"
      by (simp add: Counter_snoc set_counter_incr [OF d])
    then show ?thesis
    proof
      assume "(k, c) = (x, 1)"
      with nx show ?thesis by (simp add: count_list_0_iff)
    next
      assume in0: "(k, c) \<in> set (Counter xs)"
      then have "k \<in> set (keys (Counter xs))" by (force simp: keys_def)
      with False have "k \<noteq> x" by auto
      with snoc.IH [OF in0] show ?thesis by simp
    qed
  qed
qed

lemma Counter_empty_iff: "Counter xs = [] \<longleftrightarrow> xs = []"
proof -
  have "set (keys (Counter xs)) = set xs" by (simp add: keys_Counter set_first_seen)
  then show ?thesis by (cases xs) (auto simp: keys_def Counter_def)
qed

section \<open>Validation\<close>

lemma validate_text_eq:
  "validate_text P text V =
     \<lparr>compliant = (length (non_compliant_words P text V) = 0),
      errors = Counter (non_compliant_words P text V)\<rparr>"
  by (simp add: validate_text_def Let_def non_compliant_words_def words_def
      proper_nouns_def numbers_def)

lemma errors_validate_text:
  "errors (validate_text P text V) = Counter (non_compliant_words P text V)"
  by (simp add: validate_text_eq)

lemma set_keys_errors:
  "set (keys (errors (validate_text P text V))) = set (non_compliant_words P text V)"
  by (simp add: errors_validate_text keys_Counter set_first_seen)

lemma count_list_filter:
  "count_list (filter Q xs) k = (if Q k then count_list xs k else 0)"
  by (induction xs) auto




lemma validate_keys_set:
  "set (keys (errors (validate_text P text V))) =
     {word \<in> set (words P text).
        word \<notin> V \<and> word \<notin> proper_nouns P text \<and> word \<notin> numbers P text}"
  by (simp add: set_keys_errors non_compliant_words_def)


lemma validate_count:
  assumes "(k, c) \<in> set (errors (validate_text P text V))"
  shows "c = count_list (words P text) k" and "k \<in> set (non_compliant_words P text V)"
proof -
  from assms have c: "c = count_list (non_compliant_words P text V) k"
    by (simp add: errors_validate_text Counter_counts)
  from assms have "k \<in> set (keys (errors (validate_text P text V)))"
    by (force simp: keys_def)
  then show k: "k \<in> set (non_compliant_words P text V)"
    by (simp add: set_keys_errors)
  then show "c = count_list (words P text) k"
    using c by (simp add: non_compliant_words_def count_list_filter)
qed

lemma proper_nouns_alt:
  "proper_nouns P text =
     {lower P (token_text t) | t. t \<in> set (nlp P text) \<and> token_pos t = lit ''PROPN''}"
  by (auto simp: proper_nouns_def)

lemma numbers_alt:
  "numbers P text = {lower P (token_text t) | t. t \<in> set (nlp P text) \<and> like_num t}"
  by (auto simp: numbers_def)

text \<open>
  C1. A word is a key of the errors exactly when it is a token of the lowercased text
  that is neither in the vocabulary, nor the lowercased text of a tagger token tagged
  as a proper noun, nor the lowercased text of a tagger token flagged numeral-like.
\<close>

theorem validate_text_errors_exact:
  "word \<in> set (keys (errors (validate_text P text V))) \<longleftrightarrow>
     word \<in> set (findall P (lower P text))
     \<and> word \<notin> V
     \<and> word \<notin> {lower P (token_text t) | t. t \<in> set (nlp P text) \<and> token_pos t = lit ''PROPN''}
     \<and> word \<notin> {lower P (token_text t) | t. t \<in> set (nlp P text) \<and> like_num t}"
  unfolding proper_nouns_alt [symmetric] numbers_alt [symmetric]
  by (simp add: validate_keys_set words_def)

text \<open>
  C2. The field \<open>compliant\<close> of a validation result is true exactly when its errors
  are empty.
\<close>

theorem validate_text_compliant_iff_no_errors:
  "compliant (validate_text P text V) \<longleftrightarrow> errors (validate_text P text V) = []"
  by (simp add: validate_text_eq Counter_empty_iff)






text \<open>
  C4 fails as stated. The numeral set holds whole tagger tokens, and the tagger does not split where the
  pattern does: for \<open>1.5\<close> it gives the one token \<open>1.5\<close>, while the pattern gives the
  tokens \<open>1\<close> and \<open>5\<close>. Both are purely numeric, neither is in the numeral set, and both
  are keys of the errors.
\<close>

theorem numeric_token_flagged_counterexample:
  "lit ''1'' \<in> set (findall (ascii_py doc_decimal) (lit ''1.5''))
   \<and> list_all ascii_digit (lit ''1'')
   \<and> lit ''1'' \<in> set (keys (errors (validate_text (ascii_py doc_decimal) (lit ''1.5'')
                                   {lit ''hola''})))"
  by code_simp

text \<open>
  C4, as amended. The lowercased text of a tagger token flagged numeral-like is never
  a key of the errors: a numeric token of the pattern is exempt when the tagger gives
  it as a token of its own.
\<close>

theorem numeral_token_never_flagged:
  "token \<in> set (nlp P text) \<Longrightarrow> like_num token \<Longrightarrow>
   lower P (token_text token) \<notin> set (keys (errors (validate_text P text V)))"
  by (auto simp: validate_keys_set numbers_def)

text \<open>The token \<open>3\<close> of the first example of the specification.\<close>

theorem numeral_token_never_flagged_witness:
  "tagged ''3'' ''NUM'' True \<in> set (nlp (ascii_py doc_gato) (lit ''El gato Fluffy come 3 pescados hoy''))
   \<and> like_num (tagged ''3'' ''NUM'' True)
   \<and> lower (ascii_py doc_gato) (token_text (tagged ''3'' ''NUM'' True))
       \<notin> set (keys (errors (validate_text (ascii_py doc_gato)
                (lit ''El gato Fluffy come 3 pescados hoy'') {lit ''el''})))"
proof -
  have h1: "tagged ''3'' ''NUM'' True
              \<in> set (nlp (ascii_py doc_gato) (lit ''El gato Fluffy come 3 pescados hoy''))"
    by (simp add: ascii_py_def doc_gato_def)
  have h2: "like_num (tagged ''3'' ''NUM'' True)"
    by (simp add: tagged_def)
  from h1 h2 numeral_token_never_flagged [OF h1 h2, of "{lit ''el''}"]
  show ?thesis by simp
qed




text \<open>
  C9. Every key of the errors has a count of at least 1 and is a token of the
  lowercased text.
\<close>

theorem errors_keys_are_counted_tokens:
  "(k, c) \<in> set (errors (validate_text P text V)) \<Longrightarrow>
   1 \<le> c \<and> k \<in> set (findall P (lower P text))"
proof -
  assume a: "(k, c) \<in> set (errors (validate_text P text V))"
  from validate_count(2) [OF a] have k: "k \<in> set (words P text)"
    by (simp add: non_compliant_words_def)
  then have "count_list (words P text) k \<noteq> 0" by (simp add: count_list_0_iff)
  with validate_count(1) [OF a] k show ?thesis by (simp add: words_def)
qed


text \<open>The key \<open>hoy\<close> of the first example of the specification.\<close>

theorem errors_keys_are_counted_tokens_witness:
  "(lit ''hoy'', 1) \<in> set (errors (validate_text (ascii_py doc_gato)
        (lit ''El gato Fluffy come 3 pescados hoy'')
        {lit ''el'', lit ''gato'', lit ''come'', lit ''pescado''}))
   \<and> (1::nat) \<le> 1
   \<and> lit ''hoy'' \<in> set (findall (ascii_py doc_gato)
        (lower (ascii_py doc_gato) (lit ''El gato Fluffy come 3 pescados hoy'')))"
proof -
  have h: "(lit ''hoy'', 1) \<in> set (errors (validate_text (ascii_py doc_gato)
        (lit ''El gato Fluffy come 3 pescados hoy'')
        {lit ''el'', lit ''gato'', lit ''come'', lit ''pescado''}))"
    by code_simp
  from h errors_keys_are_counted_tokens [OF h] show ?thesis by simp
qed

section \<open>Highlighting\<close>

lemma render_nonword:
  assumes "\<not> w c"
  shows "concat (map (emit P F) (segments w (c # cs))) = c # concat (map (emit P F) (segments w cs))"
proof (cases cs)
  case Nil
  with assms show ?thesis by simp
next
  case (Cons d ds)
  with assms show ?thesis by (cases "w d") simp_all
qed

lemma text_nonword:
  assumes "\<not> w c"
  shows "concat (map segment_text (segments w (c # cs))) = c # concat (map segment_text (segments w cs))"
proof (cases cs)
  case Nil
  with assms show ?thesis by simp
next
  case (Cons d ds)
  with assms show ?thesis by (cases "w d") simp_all
qed

lemma segments_concat: "concat (map segment_text (segments w s)) = s"
proof (induction s rule: length_induct)
  case (1 s)
  show ?case
  proof (cases s)
    case Nil
    then show ?thesis by simp
  next
    case (Cons c cs)
    show ?thesis
    proof (cases "w c")
      case True
      have "length (dropWhile w (c # cs)) < length s"
        using True Cons by (simp add: less_Suc_eq_le length_dropWhile_le)
      with 1 have "concat (map segment_text (segments w (dropWhile w (c # cs)))) = dropWhile w (c # cs)"
        by blast
      then have "concat (map segment_text (segments w (c # cs)))
                 = takeWhile w (c # cs) @ dropWhile w (c # cs)"
        using True by simp
      then show ?thesis using Cons by (simp only: takeWhile_dropWhile_id)
    next
      case False
      from 1 Cons have "concat (map segment_text (segments w cs)) = cs" by simp
      with False Cons text_nonword [of w c cs] show ?thesis by (simp del: segments.simps)
    qed
  qed
qed

lemma loop_render:
  "text = a @ g @ rest \<Longrightarrow> length a = cur \<Longrightarrow> pos = cur + length g \<Longrightarrow>
   (case foldl (highlight_step P text (lower P ` F)) (parts, cur) (finditer_from w pos rest) of
      (fp, cp) \<Rightarrow> concat fp @ slice_from text cp)
   = concat parts @ g @ concat (map (emit P F) (segments w rest))"
proof (induction w pos rest arbitrary: a g cur parts rule: finditer_from.induct)
  case (1 w pos)
  then show ?case by (simp add: slice_from_def)
next
  case (2 w pos c cs)
  show ?case
  proof (cases "w c")
    case True
    let ?run = "takeWhile w (c # cs)"
    let ?rest = "dropWhile w (c # cs)"
    let ?m = "\<lparr>start = pos, endpos = pos + length ?run, group = ?run\<rparr>"
    have t: "text = (a @ g @ ?run) @ [] @ ?rest"
      using "2.prems"(1) by (simp only: append_assoc append_Nil takeWhile_dropWhile_id)
    have l: "length (a @ g @ ?run) = pos + length ?run"
      using "2.prems"(2,3) by simp
    have gap: "slice text cur pos = g"
      using "2.prems" by (simp add: slice_def)
    have step: "highlight_step P text (lower P ` F) (parts, cur) ?m
                = (parts @ [g] @ [emit P F (Tok ?run)], pos + length ?run)"
      by (simp add: highlight_step_def gap flagged_def)
    have IH: "(case foldl (highlight_step P text (lower P ` F))
                 (parts @ [g] @ [emit P F (Tok ?run)], pos + length ?run)
                 (finditer_from w (pos + length ?run) ?rest) of
               (fp, cp) \<Rightarrow> concat fp @ slice_from text cp)
            = concat (parts @ [g] @ [emit P F (Tok ?run)]) @ [] @ concat (map (emit P F) (segments w ?rest))"
      by (rule "2.IH"(1) [OF True refl t l]) simp
    have "finditer_from w pos (c # cs) = ?m # finditer_from w (pos + length ?run) ?rest"
      using True by (simp add: Let_def)
    then show ?thesis
      using IH True by (simp only: foldl_Cons step) simp
  next
    case False
    have t: "text = a @ (g @ [c]) @ cs" using "2.prems"(1) by simp
    have p: "Suc pos = cur + length (g @ [c])" using "2.prems"(3) by simp
    from "2.IH"(2) [OF False t "2.prems"(2) p, of parts] False
    show ?thesis by (simp add: render_nonword del: segments.simps)
  qed
qed

lemma format_eq_render:
  "format_text_with_highlights P text F
   = concat (map (emit P F) (segments (word_char P) text))"
  using loop_render [of "text" "[]" "[]" "text" 0 0 P F "[]" "word_char P"]
  by (simp add: format_text_with_highlights_def highlight_parts_def finditer_def
      split: prod.splits)


lemma tokens_nonword:
  assumes "\<not> w c"
  shows "[t. Tok t \<leftarrow> segments w (c # cs)] = [t. Tok t \<leftarrow> segments w cs]"
proof (cases cs)
  case Nil
  with assms show ?thesis by simp
next
  case (Cons d ds)
  with assms show ?thesis by (cases "w d") simp_all
qed

lemma segments_tokens:
  "[t. Tok t \<leftarrow> segments w s] = map group (finditer_from w pos s)"
proof (induction w pos s rule: finditer_from.induct)
  case (1 w pos)
  show ?case by simp
next
  case (2 w pos c cs)
  show ?case
  proof (cases "w c")
    case True
    with "2.IH"(1) [OF True refl] show ?thesis by (simp add: Let_def)
  next
    case False
    with "2.IH"(2) [OF False] tokens_nonword [of w c cs] show ?thesis
      by (simp del: segments.simps)
  qed
qed

lemma emit_no_flags: "emit P {} s = segment_text s"
  by (cases s) (simp_all add: flagged_def)

text \<open>
  C5. The highlighted text is the text with each of its tokens that equals a flagged
  word up to case wrapped in the markup, and everything else copied in order: the
  segments of the text (its tokens, which are the matches of the pattern, and the text
  between and around them) are emitted one by one, a flagged token inside the markup
  and any other segment as it is; without the markup the segments give the text back.
\<close>

theorem highlight_wraps_flagged_tokens_only:
  "format_text_with_highlights P text F
     = concat (map (emit P F) (segments (word_char P) text))
   \<and> concat (map segment_text (segments (word_char P) text)) = text
   \<and> [t. Tok t \<leftarrow> segments (word_char P) text] = findall P text"
  by (simp add: format_eq_render segments_concat segments_tokens findall_def finditer_def
      del: segments.simps)

text \<open>Two case variants of a flagged word, between punctuation.\<close>

theorem highlight_wraps_flagged_tokens_only_witness:
  "format_text_with_highlights (ascii_py []) (lit ''El gato, Hoy hoy!'') {lit ''hoy''}
     = lit ''El gato, <span style=\"color: red\">Hoy</span> <span style=\"color: red\">hoy</span>!''
   \<and> concat (map segment_text (segments (word_char (ascii_py [])) (lit ''El gato, Hoy hoy!'')))
     = lit ''El gato, Hoy hoy!''
   \<and> findall (ascii_py []) (lit ''El gato, Hoy hoy!'')
     = [lit ''El'', lit ''gato'', lit ''Hoy'', lit ''hoy'']"
proof -
  have e: "concat (map (emit (ascii_py []) {lit ''hoy''})
                (segments (word_char (ascii_py [])) (lit ''El gato, Hoy hoy!'')))
     = lit ''El gato, <span style=\"color: red\">Hoy</span> <span style=\"color: red\">hoy</span>!''"
    by code_simp
  have t: "[t. Tok t \<leftarrow> segments (word_char (ascii_py [])) (lit ''El gato, Hoy hoy!'')]
     = [lit ''El'', lit ''gato'', lit ''Hoy'', lit ''hoy'']"
    by code_simp
  from highlight_wraps_flagged_tokens_only
         [of "ascii_py []" "lit ''El gato, Hoy hoy!''" "{lit ''hoy''}"] e t
  show ?thesis by (simp del: segments.simps)
qed

text \<open>C6. With no flagged word the highlighted text is the text.\<close>

theorem highlight_nothing_flagged:
  "format_text_with_highlights P text {} = text"
proof -
  have "map (emit P {}) (segments (word_char P) text)
        = map segment_text (segments (word_char P) text)"
    by (simp add: emit_no_flags)
  then show ?thesis by (simp only: format_eq_render segments_concat)
qed

lemma odds_append: "even (length xs) \<Longrightarrow> odds (xs @ ys) = odds xs @ odds ys"
  by (induction xs rule: odds.induct) simp_all

lemma loop_parts:
  "even (length parts) \<Longrightarrow>
   even (length (fst (foldl (highlight_step P text E) (parts, cur) ms)))
   \<and> odds (fst (foldl (highlight_step P text E) (parts, cur) ms))
     = odds parts @ map (\<lambda>m. if lower P (group m) \<in> E then span (group m) else group m) ms"
proof (induction ms arbitrary: parts cur)
  case Nil
  then show ?case by simp
next
  case (Cons m ms)
  let ?p = "parts @ [slice text cur (start m)]
              @ [if lower P (group m) \<in> E then span (group m) else group m]"
  have s: "highlight_step P text E (parts, cur) m = (?p, endpos m)"
    by (simp add: highlight_step_def)
  have e: "even (length ?p)" using Cons.prems by simp
  have o: "odds ?p = odds parts @ [if lower P (group m) \<in> E then span (group m) else group m]"
    using Cons.prems by (simp add: odds_append)
  from Cons.IH [OF e, of "endpos m"] show ?case
    by (simp only: foldl_Cons s o) simp
qed

lemma match_group_is_slice:
  "text = a @ rest \<Longrightarrow> length a = pos \<Longrightarrow> m \<in> set (finditer_from w pos rest) \<Longrightarrow>
   group m = slice text (start m) (endpos m)"
proof (induction w pos rest arbitrary: a rule: finditer_from.induct)
  case (1 w pos)
  then show ?case by simp
next
  case (2 w pos c cs)
  show ?case
  proof (cases "w c")
    case True
    let ?run = "takeWhile w (c # cs)"
    let ?rest = "dropWhile w (c # cs)"
    have t: "text = (a @ ?run) @ ?rest"
      using "2.prems"(1) by (simp only: append_assoc takeWhile_dropWhile_id)
    from "2.prems"(3) True
    have "m = \<lparr>start = pos, endpos = pos + length ?run, group = ?run\<rparr>
          \<or> m \<in> set (finditer_from w (pos + length ?run) ?rest)"
      by (simp add: Let_def)
    then show ?thesis
    proof
      assume m: "m = \<lparr>start = pos, endpos = pos + length ?run, group = ?run\<rparr>"
      have "slice text pos (pos + length ?run) = ?run"
        unfolding slice_def using t "2.prems"(2) by simp
      with m show ?thesis by simp
    next
      assume "m \<in> set (finditer_from w (pos + length ?run) ?rest)"
      with "2.IH"(1) [OF True refl t] "2.prems"(2) show ?thesis by simp
    qed
  next
    case False
    have t: "text = (a @ [c]) @ cs" using "2.prems"(1) by simp
    from "2.prems"(3) False have "m \<in> set (finditer_from w (Suc pos) cs)" by simp
    with "2.IH"(2) [OF False t] "2.prems"(2) show ?thesis by simp
  qed
qed

text \<open>
  C10. The parts that the loop appends for the matches are, in order, the substrings
  of the text at the matches' spans, in their original case: inside the markup when
  the lowercased substring is a lowercased flagged word, and bare otherwise.
\<close>

theorem highlight_keeps_surface_form:
  "odds (highlight_parts P text F)
   = map (\<lambda>m. if lower P (slice text (start m) (endpos m)) \<in> lower P ` F
               then lit ''<span style=\"color: red\">'' @ slice text (start m) (endpos m) @ lit ''</span>''
               else slice text (start m) (endpos m))
       (finditer P text)"
proof -
  have g: "\<And>m. m \<in> set (finditer P text) \<Longrightarrow> group m = slice text (start m) (endpos m)"
    unfolding finditer_def by (rule match_group_is_slice [of "text" "[]"]) simp_all
  have "odds (highlight_parts P text F)
        = map (\<lambda>m. if lower P (group m) \<in> lower P ` F then span (group m) else group m)
            (finditer P text)"
  proof -
    obtain fp cp where f:
      "foldl (highlight_step P text (lower P ` F)) ([], 0) (finditer P text) = (fp, cp)"
      by (cases "foldl (highlight_step P text (lower P ` F)) ([], 0) (finditer P text)")
    from loop_parts [of "[]" P "text" "lower P ` F" 0 "finditer P text"] f
    have "even (length fp)" and
      "odds fp = map (\<lambda>m. if lower P (group m) \<in> lower P ` F then span (group m) else group m)
            (finditer P text)"
      by simp_all
    then show ?thesis
      by (simp add: highlight_parts_def f odds_append)
  qed
  also have "\<dots> = map (\<lambda>m. if lower P (slice text (start m) (endpos m)) \<in> lower P ` F
               then lit ''<span style=\"color: red\">'' @ slice text (start m) (endpos m) @ lit ''</span>''
               else slice text (start m) (endpos m))
       (finditer P text)"
    by (rule map_cong) (simp_all add: g span_def)
  finally show ?thesis .
qed


text \<open>Three spellings of a flagged word keep their case inside the markup.\<close>

theorem highlight_keeps_surface_form_witness:
  "odds (highlight_parts (ascii_py []) (lit ''Hoy, hoy y HOY'') {lit ''hoy''})
   = [lit ''<span style=\"color: red\">Hoy</span>'', lit ''<span style=\"color: red\">hoy</span>'',
      lit ''y'', lit ''<span style=\"color: red\">HOY</span>'']"
proof -
  have "map (\<lambda>m. if lower (ascii_py []) (slice (lit ''Hoy, hoy y HOY'') (start m) (endpos m))
                     \<in> lower (ascii_py []) ` {lit ''hoy''}
               then lit ''<span style=\"color: red\">''
                    @ slice (lit ''Hoy, hoy y HOY'') (start m) (endpos m) @ lit ''</span>''
               else slice (lit ''Hoy, hoy y HOY'') (start m) (endpos m))
       (finditer (ascii_py []) (lit ''Hoy, hoy y HOY''))
   = [lit ''<span style=\"color: red\">Hoy</span>'', lit ''<span style=\"color: red\">hoy</span>'',
      lit ''y'', lit ''<span style=\"color: red\">HOY</span>'']"
    by code_simp
  with highlight_keeps_surface_form [of "ascii_py []" "lit ''Hoy, hoy y HOY''" "{lit ''hoy''}"]
  show ?thesis by simp
qed

section \<open>The guards of \<open>main\<close>\<close>

text \<open>
  C8. When the vocabulary is empty, or the text is empty or only whitespace, a click on
  the button shows one warning and nothing else: \<open>result\<close> is never assigned
  (\<open>validate_text\<close> is not called), and the run shows what a run without the click
  shows, followed by the warning.
\<close>

theorem guards_skip_validation:
  \<open>(vocabulary = {} \<or> strip P txt = [] \<longrightarrow>
      validate_clicked P vocabulary txt
        = ([Warning (if vocabulary = {} then lit ''Please load a vocabulary file first.''
                     else lit ''Please enter some text to validate.'')], None))
   \<and> (((case uploaded_file ui of None \<Rightarrow> True
         | Some lines \<Rightarrow> load_vocabulary P lines = Inr {})
        \<or> strip P (text_input ui) = [])
       \<and> main P (ui\<lparr>button := False\<rparr>) = Inr shown \<longrightarrow>
      (\<exists>msg. main P (ui\<lparr>button := True\<rparr>) = Inr (shown @ [Warning msg])))\<close>
proof (intro conjI impI)
  assume "vocabulary = {} \<or> strip P txt = []"
  then show "validate_clicked P vocabulary txt
        = ([Warning (if vocabulary = {} then lit ''Please load a vocabulary file first.''
                     else lit ''Please enter some text to validate.'')], None)"
    by (auto simp: validate_clicked_def)
next
  assume a: "((case uploaded_file ui of None \<Rightarrow> True
         | Some lines \<Rightarrow> load_vocabulary P lines = Inr {})
        \<or> strip P (text_input ui) = [])
       \<and> main P (ui\<lparr>button := False\<rparr>) = Inr shown"
  then show "\<exists>msg. main P (ui\<lparr>button := True\<rparr>) = Inr (shown @ [Warning msg])"
    by (auto simp: main_def validate_clicked_def split: option.splits sum.splits)
qed


text \<open>A blank text with a vocabulary, and a click with no vocabulary file.\<close>

theorem guards_skip_validation_witness:
  "strip (ascii_py []) (lit ''  '') = []
   \<and> validate_clicked (ascii_py []) {lit ''hola''} (lit ''  '')
       = ([Warning (lit ''Please enter some text to validate.'')], None)
   \<and> uploaded_file \<lparr>uploaded_file = None, text_input = lit ''Hola'', button = True\<rparr> = None
   \<and> main (ascii_py []) (\<lparr>uploaded_file = None, text_input = lit ''Hola'', button = True\<rparr>
                             \<lparr>button := False\<rparr>)
       = Inr [Set_page_config (lit ''Spanish Text Validator'') (lit ''wide''),
              Markdown css True, Title (lit ''Spanish Text Validator'')]
   \<and> (\<exists>msg. main (ascii_py []) (\<lparr>uploaded_file = None, text_input = lit ''Hola'', button = True\<rparr>
                                    \<lparr>button := True\<rparr>)
       = Inr ([Set_page_config (lit ''Spanish Text Validator'') (lit ''wide''),
               Markdown css True, Title (lit ''Spanish Text Validator'')] @ [Warning msg]))"
proof -
  let ?P = "ascii_py []"
  let ?ui = "\<lparr>uploaded_file = None, text_input = lit ''Hola'', button = True\<rparr>"
  let ?shown = "[Set_page_config (lit ''Spanish Text Validator'') (lit ''wide''),
                 Markdown css True, Title (lit ''Spanish Text Validator'')]"
  have h1: "strip ?P (lit ''  '') = []"
    by code_simp
  have h2: "uploaded_file ?ui = None"
    by simp
  have h3: "main ?P (?ui\<lparr>button := False\<rparr>) = Inr ?shown"
    by (simp add: main_def)
  have n: "{lit ''hola''} \<noteq> ({} :: str set)"
    by simp
  note t = guards_skip_validation [of "{lit ''hola''}" ?P "lit ''  ''" ?ui ?shown]
  from t h1 n have c1: "validate_clicked ?P {lit ''hola''} (lit ''  '')
       = ([Warning (lit ''Please enter some text to validate.'')], None)"
    by simp
  from t h2 h3 have c2: "\<exists>msg. main ?P (?ui\<lparr>button := True\<rparr>) = Inr (?shown @ [Warning msg])"
    by simp
  from h1 c1 h2 h3 c2 show ?thesis by blast
qed

end
